theory Spec2Isabelle
  imports Main
begin

section \<open>Python strings\<close>

text \<open>
  A Python \<open>str\<close> is a sequence of Unicode code points.  The key material of
  \<open>bot.py\<close> is tokenised with \<open>str.replace\<close>, \<open>str.splitlines\<close> and
  \<open>str.strip\<close>, whose behaviour depends on code points beyond one byte, so a
  string is modelled as the list of its code points.
\<close>

type_synonym pystr = "nat list"

definition py :: "string \<Rightarrow> pystr" where
  "py s = map of_char s"

text \<open>
  The line boundaries of \<open>str.splitlines\<close>: LF, VT, FF, CR, FS, GS, RS, NEL,
  LINE SEPARATOR and PARAGRAPH SEPARATOR.
\<close>

definition is_linebreak :: "nat \<Rightarrow> bool" where
  "is_linebreak c \<longleftrightarrow>
     c = 10 \<or> c = 11 \<or> c = 12 \<or> c = 13 \<or> c = 28 \<or> c = 29 \<or> c = 30 \<or>
     c = 133 \<or> c = 8232 \<or> c = 8233"

text \<open>
  The characters removed by \<open>str.strip()\<close> without argument (the code points for
  which \<open>str.isspace\<close> holds).
\<close>

definition is_space :: "nat \<Rightarrow> bool" where
  "is_space c \<longleftrightarrow>
     (9 \<le> c \<and> c \<le> 13) \<or> (28 \<le> c \<and> c \<le> 32) \<or> c = 133 \<or> c = 160 \<or>
     c = 5760 \<or> (8192 \<le> c \<and> c \<le> 8202) \<or> c = 8232 \<or> c = 8233 \<or>
     c = 8239 \<or> c = 8287 \<or> c = 12288"

definition lstrip :: "pystr \<Rightarrow> pystr" where
  "lstrip s = dropWhile is_space s"

definition rstrip :: "pystr \<Rightarrow> pystr" where
  "rstrip s = rev (dropWhile is_space (rev s))"

definition strip :: "pystr \<Rightarrow> pystr" where
  "strip s = rstrip (lstrip s)"

text \<open>\<open>s.replace(old, new)\<close> for one-character \<open>old\<close> and \<open>new\<close>.\<close>

definition replace :: "nat \<Rightarrow> nat \<Rightarrow> pystr \<Rightarrow> pystr" where
  "replace old new s = map (\<lambda>c. if c = old then new else c) s"

text \<open>
  \<open>s.splitlines()\<close>: the text is cut after every line boundary, \<open>\r\n\<close> counts
  as one boundary, the boundaries are dropped, and no empty line is reported
  after a final boundary (so \<open>''''\<close> gives no line and \<open>''a\n''\<close> gives one).
\<close>

fun splitlines :: "pystr \<Rightarrow> pystr list" where
  "splitlines [] = []"
| "splitlines [c] = (if is_linebreak c then [[]] else [[c]])"
| "splitlines (c # d # cs) =
     (if c = 13 \<and> d = 10 then [] # splitlines cs
      else if is_linebreak c then [] # splitlines (d # cs)
      else (case splitlines (d # cs) of
              [] \<Rightarrow> [[c]]
            | l # ls \<Rightarrow> (c # l) # ls))"

text \<open>\<open>"\n".join(lines)\<close>.\<close>

fun join_nl :: "pystr list \<Rightarrow> pystr" where
  "join_nl [] = []"
| "join_nl [l] = l"
| "join_nl (l # m # ls) = l @ [10] @ join_nl (m # ls)"

section \<open>Tokenisation as the specification words it\<close>

text \<open>
  The specification describes the parsing of an import as: split the text on
  a set of separator characters, trim each token, discard the empty ones, and
  keep the first occurrence of each.  \<open>tokens_on\<close> is that description for a
  given separator set; \<open>spec_separator\<close> is the set the specification names
  and \<open>separator\<close> the set the code turns out to split on.
\<close>

fun split_on :: "(nat \<Rightarrow> bool) \<Rightarrow> pystr \<Rightarrow> pystr list" where
  "split_on sep [] = [[]]"
| "split_on sep (c # cs) =
     (if sep c then [] # split_on sep cs
      else (case split_on sep cs of [] \<Rightarrow> [[c]] | l # ls \<Rightarrow> (c # l) # ls))"

fun dedup_first :: "'a list \<Rightarrow> 'a list" where
  "dedup_first [] = []"
| "dedup_first (x # xs) = x # dedup_first (filter (\<lambda>y. y \<noteq> x) xs)"

definition nonempty_stripped :: "pystr list \<Rightarrow> pystr list" where
  "nonempty_stripped ls = filter (\<lambda>k. k \<noteq> []) (map strip ls)"

definition tokens_on :: "(nat \<Rightarrow> bool) \<Rightarrow> pystr \<Rightarrow> pystr list" where
  "tokens_on sep text = dedup_first (nonempty_stripped (split_on sep text))"

definition spec_separator :: "nat \<Rightarrow> bool" where
  "spec_separator c \<longleftrightarrow> c = 10 \<or> c = 44 \<or> c = 59 \<or> c = 9 \<or> c = 32"

definition separator :: "nat \<Rightarrow> bool" where
  "separator c \<longleftrightarrow> c = 44 \<or> c = 59 \<or> c = 9 \<or> c = 32 \<or> is_linebreak c"

section \<open>The mirror files\<close>

text \<open>
  A path of the stock directory holds a regular text file, a file that cannot
  be opened for writing, or something that exists but cannot be opened at all
  (a directory, a file without permissions).  Opening the latter two raises
  \<open>OSError\<close>.  File contents are the text as Python's text mode reads it:
  the program only ever writes text without carriage returns, so what it
  writes is what it reads back.  The stock directory is taken to exist
  (\<open>init_db\<close> creates it), so \<open>os.makedirs\<close> has no effect here.
\<close>

datatype fnode = Regular pystr | ReadOnly pystr | Unopenable

type_synonym fs = "string \<Rightarrow> fnode option"

datatype py_error = IntegrityError | OSError

definition stock_file :: "string \<Rightarrow> string \<Rightarrow> string" where
  "stock_file program duration = program @ ''_'' @ duration @ ''.txt''"

text \<open>\<open>open(path, "r").read()\<close> on an existing node.\<close>

fun open_read :: "fnode \<Rightarrow> py_error + pystr" where
  "open_read (Regular text) = Inr text"
| "open_read (ReadOnly text) = Inr text"
| "open_read Unopenable = Inl OSError"

text \<open>\<open>open(path, "w")\<close> followed by one \<open>write\<close>: creates or truncates.\<close>

definition open_write :: "string \<Rightarrow> pystr \<Rightarrow> fs \<Rightarrow> py_error + fs" where
  "open_write path text f =
     (case f path of
        None \<Rightarrow> Inr (f(path \<mapsto> Regular text))
      | Some (Regular old) \<Rightarrow> Inr (f(path \<mapsto> Regular text))
      | Some (ReadOnly old) \<Rightarrow> Inl OSError
      | Some Unopenable \<Rightarrow> Inl OSError)"

text \<open>\<open>open(path, "a")\<close> followed by writes: creates or extends.\<close>

definition open_append :: "string \<Rightarrow> pystr \<Rightarrow> fs \<Rightarrow> py_error + fs" where
  "open_append path text f =
     (case f path of
        None \<Rightarrow> Inr (f(path \<mapsto> Regular text))
      | Some (Regular old) \<Rightarrow> Inr (f(path \<mapsto> Regular (old @ text)))
      | Some (ReadOnly old) \<Rightarrow> Inl OSError
      | Some Unopenable \<Rightarrow> Inl OSError)"

section \<open>The keys table\<close>

text \<open>
  One row of the table \<open>keys\<close> created by \<open>init_db\<close>.  The column \<open>id\<close> is the
  field \<open>row_id\<close>; a nullable column is an option.
\<close>

record key_row =
  row_id :: nat
  program :: string
  duration :: string
  key :: pystr
  used_by :: "int option"
  used_for :: "int option"
  used_at :: "pystr option"

text \<open>
  The table is the list of its rows in rowid order, which is the order of
  SQLite's table scan; \<open>last_id\<close> is the AUTOINCREMENT counter.  The query of
  \<open>pop_key\<close> has no \<open>ORDER BY\<close> and no index serves its condition, so
  \<open>LIMIT 1\<close> yields the first matching row of that scan.
\<close>

record db =
  keys :: "key_row list"
  last_id :: nat

definition init_db :: db where
  "init_db = \<lparr>keys = [], last_id = 0\<rparr>"

text \<open>The condition \<open>program = ? AND duration = ? AND used_at IS NULL\<close>.\<close>

definition unused :: "string \<Rightarrow> string \<Rightarrow> key_row \<Rightarrow> bool" where
  "unused prog dur r \<longleftrightarrow> program r = prog \<and> duration r = dur \<and> used_at r = None"

text \<open>
  \<open>INSERT INTO keys(program, duration, key) VALUES(?, ?, ?)\<close> under the
  constraint \<open>key TEXT NOT NULL UNIQUE\<close>.
\<close>

definition insert_key :: "string \<Rightarrow> string \<Rightarrow> pystr \<Rightarrow> db \<Rightarrow> py_error + db" where
  "insert_key prog dur k d =
     (if k \<in> set (map key (keys d)) then Inl IntegrityError
      else Inr \<lparr>keys = keys d @
                  [\<lparr>row_id = last_id d + 1, program = prog, duration = dur, key = k,
                    used_by = None, used_for = None, used_at = None\<rparr>],
                last_id = last_id d + 1\<rparr>)"

definition get_stock_count :: "string \<Rightarrow> string \<Rightarrow> db \<Rightarrow> nat" where
  "get_stock_count prog dur d = length (filter (unused prog dur) (keys d))"

section \<open>Importing stock\<close>

text \<open>The loop of \<open>add_stock_via_text\<close> over the lines, with \<open>seen\<close> and \<open>keys\<close>.\<close>

fun collect_keys :: "pystr list \<Rightarrow> pystr set \<Rightarrow> pystr list \<Rightarrow> pystr list" where
  "collect_keys [] seen ks = ks"
| "collect_keys (line # lines) seen ks =
     (let k = strip line
      in if k \<noteq> [] \<and> k \<notin> seen then collect_keys lines (insert k seen) (ks @ [k])
         else collect_keys lines seen ks)"

definition parse_keys :: "pystr \<Rightarrow> pystr list" where
  "parse_keys raw_text =
     (let normalized = replace 32 10 (replace 9 10 (replace 59 10 (replace 44 10 raw_text)))
      in collect_keys (splitlines normalized) {} [])"

text \<open>The loop over \<open>keys\<close> that inserts and counts.\<close>

fun insert_loop ::
  "string \<Rightarrow> string \<Rightarrow> pystr list \<Rightarrow> db \<Rightarrow> pystr list \<Rightarrow> nat \<Rightarrow> db \<times> pystr list \<times> nat" where
  "insert_loop prog dur [] d added_keys skipped = (d, added_keys, skipped)"
| "insert_loop prog dur (k # ks) d added_keys skipped =
     (case insert_key prog dur k d of
        Inr d' \<Rightarrow> insert_loop prog dur ks d' (added_keys @ [k]) skipped
      | Inl e \<Rightarrow> insert_loop prog dur ks d added_keys (skipped + 1))"

text \<open>What the loop \<open>for k in added_keys: f.write(k + "\n")\<close> writes.\<close>

definition key_lines :: "pystr list \<Rightarrow> pystr" where
  "key_lines ks = concat (map (\<lambda>k. k @ [10]) ks)"

text \<open>
  \<open>add_stock_via_text\<close>.  The result is \<open>(added, skipped)\<close>, or the error raised
  by opening the mirror file, which happens after the commit.
\<close>

definition add_stock_via_text ::
  "string \<Rightarrow> string \<Rightarrow> pystr \<Rightarrow> db \<times> fs \<Rightarrow> (py_error + nat \<times> nat) \<times> db \<times> fs" where
  "add_stock_via_text prog dur raw_text st =
     (let d = fst st; f = snd st;
          path = stock_file prog dur;
          ks = parse_keys raw_text
      in if ks = [] then (Inr (0, 0), d, f)
         else
           (let r = insert_loop prog dur ks d [] 0;
                d' = fst r; added_keys = fst (snd r); skipped = snd (snd r)
            in if added_keys \<noteq> [] then
                 (case open_append path (key_lines added_keys) f of
                    Inl e \<Rightarrow> (Inl e, d', f)
                  | Inr f' \<Rightarrow> (Inr (length added_keys, skipped), d', f'))
               else (Inr (length added_keys, skipped), d', f)))"

section \<open>Removing a key from the mirror\<close>

text \<open>The loop of \<open>remove_key_from_txt\<close> with \<open>removed\<close> and \<open>new_lines\<close>.\<close>

fun scan_lines :: "pystr \<Rightarrow> pystr list \<Rightarrow> bool \<Rightarrow> pystr list \<Rightarrow> bool \<times> pystr list" where
  "scan_lines key_value [] removed new_lines = (removed, new_lines)"
| "scan_lines key_value (line # lines) removed new_lines =
     (if \<not> removed \<and> strip line = key_value
      then scan_lines key_value lines True new_lines
      else scan_lines key_value lines removed (new_lines @ [line]))"

text \<open>The text written back: \<open>"\n".join(new_lines).rstrip() + ("\n" if new_lines else "")\<close>.\<close>

definition rewritten :: "pystr list \<Rightarrow> pystr" where
  "rewritten new_lines = rstrip (join_nl new_lines) @ (if new_lines \<noteq> [] then [10] else [])"

definition remove_key_from_txt ::
  "string \<Rightarrow> string \<Rightarrow> pystr \<Rightarrow> fs \<Rightarrow> py_error + bool \<times> fs" where
  "remove_key_from_txt prog dur key_value f =
     (let path = stock_file prog dur
      in case f path of
           None \<Rightarrow> Inr (False, f)
         | Some node \<Rightarrow>
             (case open_read node of
                Inl e \<Rightarrow> Inl e
              | Inr text \<Rightarrow>
                  (let r = scan_lines key_value (splitlines text) False [];
                       removed = fst r; new_lines = snd r
                   in if removed then
                        (case open_write path (rewritten new_lines) f of
                           Inl e \<Rightarrow> Inl e
                         | Inr f' \<Rightarrow> Inr (True, f'))
                      else Inr (False, f))))"

section \<open>Claiming a key\<close>

text \<open>
  The transaction of \<open>pop_key\<close>: \<open>SELECT id, key ... LIMIT 1\<close>, then either
  \<open>ROLLBACK\<close> or the \<open>UPDATE ... WHERE id = ?\<close> and the commit.
\<close>

definition claim_one ::
  "string \<Rightarrow> string \<Rightarrow> int \<Rightarrow> int \<Rightarrow> pystr \<Rightarrow> db \<Rightarrow> pystr option \<times> db" where
  "claim_one prog dur reseller_id buyer_id now d =
     (case find (unused prog dur) (keys d) of
        None \<Rightarrow> (None, d)
      | Some row \<Rightarrow>
          (let key_id = row_id row; key_value = key row
           in (Some key_value,
               d\<lparr>keys := map (\<lambda>r. if row_id r = key_id
                                   then r\<lparr>used_by := Some reseller_id,
                                          used_for := Some buyer_id,
                                          used_at := Some now\<rparr>
                                   else r) (keys d)\<rparr>)))"

text \<open>
  \<open>pop_key\<close>: the transaction, then the removal from the mirror inside
  \<open>try ... except Exception\<close>, whose outcome only reaches the log (the
  \<open>print\<close> calls are not part of the state).
\<close>

definition pop_key ::
  "string \<Rightarrow> string \<Rightarrow> int \<Rightarrow> int \<Rightarrow> pystr \<Rightarrow> db \<times> fs \<Rightarrow> pystr option \<times> db \<times> fs" where
  "pop_key prog dur reseller_id buyer_id now st =
     (let d = fst st; f = snd st
      in case claim_one prog dur reseller_id buyer_id now d of
           (None, d') \<Rightarrow> (None, d', f)
         | (Some key_value, d') \<Rightarrow>
             (case remove_key_from_txt prog dur key_value f of
                Inl e \<Rightarrow> (Some key_value, d', f)
              | Inr (ok, f') \<Rightarrow> (Some key_value, d', f')))"

section \<open>Clearing a pool\<close>

text \<open>
  \<open>clear_stock_cmd\<close> without its replies: the owner check, the count, the
  \<open>DELETE\<close> and the wipe of the mirror.  \<open>None\<close> is the refusal \<open>Owner only.\<close>
\<close>

definition clear_stock_cmd ::
  "int set \<Rightarrow> int \<Rightarrow> string \<Rightarrow> string \<Rightarrow> db \<times> fs \<Rightarrow> (py_error + nat option) \<times> db \<times> fs" where
  "clear_stock_cmd owner_ids user_id prog dur st =
     (let d = fst st; f = snd st
      in if user_id \<notin> owner_ids then (Inr None, d, f)
         else
           (let before_count = length (filter (unused prog dur) (keys d));
                d' = d\<lparr>keys := filter (\<lambda>r. \<not> unused prog dur r) (keys d)\<rparr>
            in case open_write (stock_file prog dur) [] f of
                 Inl e \<Rightarrow> (Inl e, d', f)
               | Inr f' \<Rightarrow> (Inr (Some before_count), d', f')))"

section \<open>Invariants of the store\<close>

text \<open>The rows an import adds for the keys \<open>ks\<close> when the counter stands at \<open>n\<close>.\<close>

fun fresh_rows :: "string \<Rightarrow> string \<Rightarrow> nat \<Rightarrow> pystr list \<Rightarrow> key_row list" where
  "fresh_rows prog dur n [] = []"
| "fresh_rows prog dur n (k # ks) =
     \<lparr>row_id = n + 1, program = prog, duration = dur, key = k,
      used_by = None, used_for = None, used_at = None\<rparr> # fresh_rows prog dur (n + 1) ks"

text \<open>
  A key value as the parser lets it through: not empty, free of separators and
  line boundaries, and with no white space at either end.
\<close>

definition clean_key :: "pystr \<Rightarrow> bool" where
  "clean_key k \<longleftrightarrow>
     k \<noteq> [] \<and> (\<forall>c \<in> set k. \<not> separator c) \<and> \<not> is_space (hd k) \<and> \<not> is_space (last k)"

text \<open>
  Key values are unique, row ids increase along the table and never exceed the
  AUTOINCREMENT counter, and every key value is clean.
\<close>

definition db_inv :: "db \<Rightarrow> bool" where
  "db_inv d \<longleftrightarrow>
     distinct (map key (keys d)) \<and>
     sorted_wrt (<) (map row_id (keys d)) \<and>
     (\<forall>r \<in> set (keys d). row_id r \<le> last_id d) \<and>
     (\<forall>r \<in> set (keys d). clean_key (key r))"

text \<open>The row a claim leaves behind.\<close>

definition claimed :: "int \<Rightarrow> int \<Rightarrow> pystr \<Rightarrow> key_row \<Rightarrow> key_row" where
  "claimed reseller_id buyer_id now r =
     r\<lparr>used_by := Some reseller_id, used_for := Some buyer_id, used_at := Some now\<rparr>"

text \<open>The text of a mirror file that is absent or regular.\<close>

fun mirror_text :: "fnode option \<Rightarrow> pystr" where
  "mirror_text None = []"
| "mirror_text (Some (Regular text)) = text"
| "mirror_text (Some (ReadOnly text)) = text"
| "mirror_text (Some Unopenable) = []"

text \<open>The tokens of an import that the store does not hold yet, and those it holds.\<close>

definition new_keys :: "pystr \<Rightarrow> db \<Rightarrow> pystr list" where
  "new_keys raw_text d = filter (\<lambda>k. k \<notin> set (map key (keys d))) (parse_keys raw_text)"

definition old_keys :: "pystr \<Rightarrow> db \<Rightarrow> pystr list" where
  "old_keys raw_text d = filter (\<lambda>k. k \<in> set (map key (keys d))) (parse_keys raw_text)"

definition with_rows :: "string \<Rightarrow> string \<Rightarrow> pystr list \<Rightarrow> db \<Rightarrow> db" where
  "with_rows prog dur ks d =
     \<lparr>keys = keys d @ fresh_rows prog dur (last_id d) ks, last_id = last_id d + length ks\<rparr>"

section \<open>Reachable states\<close>

datatype op =
  AddStock string string pystr
| PopKey string string int int pystr
| ClearStock int string string

fun step :: "int set \<Rightarrow> op \<Rightarrow> db \<times> fs \<Rightarrow> db \<times> fs" where
  "step owner_ids (AddStock prog dur raw_text) st = snd (add_stock_via_text prog dur raw_text st)"
| "step owner_ids (PopKey prog dur reseller_id buyer_id now) st =
     snd (pop_key prog dur reseller_id buyer_id now st)"
| "step owner_ids (ClearStock user_id prog dur) st =
     snd (clear_stock_cmd owner_ids user_id prog dur st)"

definition run :: "int set \<Rightarrow> op list \<Rightarrow> db \<times> fs \<Rightarrow> db \<times> fs" where
  "run owner_ids ops st = fold (step owner_ids) ops st"

inductive reachable :: "int set \<Rightarrow> db \<times> fs \<Rightarrow> bool" for owner_ids :: "int set" where
  reachable_init: "reachable owner_ids (init_db, f)"
| reachable_step: "reachable owner_ids st \<Longrightarrow> reachable owner_ids (step owner_ids op st)"

section \<open>Example states\<close>

text \<open>
  The store after the import of \<open>K1 K2\<close> into the pool (temp, day) of a fresh
  installation, and after one claim from that pool.
\<close>

abbreviation stamp :: pystr where
  "stamp \<equiv> py ''2026-01-01 00:00:00''"

abbreviation row1 :: key_row where
  "row1 \<equiv> \<lparr>row_id = 1, program = ''temp'', duration = ''day'', key = py ''K1'',
            used_by = None, used_for = None, used_at = None\<rparr>"

abbreviation row2 :: key_row where
  "row2 \<equiv> \<lparr>row_id = 2, program = ''temp'', duration = ''day'', key = py ''K2'',
            used_by = None, used_for = None, used_at = None\<rparr>"

abbreviation row1_claimed :: key_row where
  "row1_claimed \<equiv> \<lparr>row_id = 1, program = ''temp'', duration = ''day'', key = py ''K1'',
            used_by = Some 7, used_for = Some 8, used_at = Some stamp\<rparr>"

abbreviation stocked_db :: db where
  "stocked_db \<equiv> \<lparr>keys = [row1, row2], last_id = 2\<rparr>"

abbreviation stocked_fs :: fs where
  "stocked_fs \<equiv> [''temp_day.txt'' \<mapsto> Regular (py ''K1'' @ [10] @ py ''K2'' @ [10])]"

abbreviation sold_db :: db where
  "sold_db \<equiv> \<lparr>keys = [row1_claimed, row2], last_id = 2\<rparr>"

abbreviation sold_fs :: fs where
  "sold_fs \<equiv> [''temp_day.txt'' \<mapsto> Regular (py ''K2'' @ [10])]"

section \<open>Strings: splitting and stripping\<close>

lemma is_linebreak_space: "is_linebreak c \<Longrightarrow> is_space c"
  by (auto simp: is_linebreak_def is_space_def)

lemma strip_Nil [simp]: "strip [] = []"
  by (simp add: strip_def lstrip_def rstrip_def)

lemma split_on_not_Nil [simp]: "split_on sep s \<noteq> []"
  by (induction s) (auto split: list.splits)

lemma splitlines_not_Nil: "s \<noteq> [] \<Longrightarrow> splitlines s \<noteq> []"
  by (induction s rule: splitlines.induct) (auto split: list.splits)

text \<open>
  \<open>splitlines\<close> and the split on every single line boundary begin with the same
  line and differ only in empty lines afterwards.
\<close>

lemma splitlines_split_on:
  "s \<noteq> [] \<Longrightarrow>
     \<exists>l ls ls'. splitlines s = l # ls \<and> split_on is_linebreak s = l # ls' \<and>
       nonempty_stripped ls = nonempty_stripped ls'"
proof (induction s rule: splitlines.induct)
  case 1
  then show ?case by simp
next
  case (2 c)
  then show ?case by (simp add: nonempty_stripped_def)
next
  case (3 c d cs)
  show ?case
  proof (cases "c = 13 \<and> d = 10")
    case True
    then have lb: "is_linebreak c" "is_linebreak d" by (simp_all add: is_linebreak_def)
    show ?thesis
    proof (cases "cs = []")
      case True
      with \<open>c = 13 \<and> d = 10\<close> lb show ?thesis by (simp add: nonempty_stripped_def)
    next
      case False
      with 3(1) \<open>c = 13 \<and> d = 10\<close> obtain l ls ls' where
        "splitlines cs = l # ls" "split_on is_linebreak cs = l # ls'"
        "nonempty_stripped ls = nonempty_stripped ls'"
        by blast
      with \<open>c = 13 \<and> d = 10\<close> lb show ?thesis by (simp add: nonempty_stripped_def)
    qed
  next
    case False
    note nocrlf = this
    show ?thesis
    proof (cases "is_linebreak c")
      case True
      from 3(2) nocrlf True obtain l ls ls' where
        "splitlines (d # cs) = l # ls" "split_on is_linebreak (d # cs) = l # ls'"
        "nonempty_stripped ls = nonempty_stripped ls'"
        by blast
      moreover have "splitlines (c # d # cs) = [] # splitlines (d # cs)"
        using nocrlf True by auto
      ultimately show ?thesis using True by (simp add: nonempty_stripped_def)
    next
      case False
      from 3(3) nocrlf False obtain l ls ls' where
        "splitlines (d # cs) = l # ls" "split_on is_linebreak (d # cs) = l # ls'"
        "nonempty_stripped ls = nonempty_stripped ls'"
        by blast
      moreover have "splitlines (c # d # cs) = (c # l) # ls"
        using nocrlf False \<open>splitlines (d # cs) = l # ls\<close> by auto
      ultimately show ?thesis using False by simp
    qed
  qed
qed

lemma nonempty_stripped_splitlines:
  "nonempty_stripped (splitlines s) = nonempty_stripped (split_on is_linebreak s)"
proof (cases "s = []")
  case True
  then show ?thesis by (simp add: nonempty_stripped_def)
next
  case False
  from splitlines_split_on [OF this] show ?thesis by (auto simp: nonempty_stripped_def)
qed

lemma split_on_replaced:
  "split_on is_linebreak (replace 32 10 (replace 9 10 (replace 59 10 (replace 44 10 t)))) =
   split_on separator t"
  by (induction t) (auto simp: replace_def separator_def is_linebreak_def)

lemma collect_keys_eq:
  "collect_keys lines seen ks =
   ks @ dedup_first (filter (\<lambda>k. k \<noteq> [] \<and> k \<notin> seen) (map strip lines))"
proof (induction lines arbitrary: seen ks)
  case Nil
  then show ?case by simp
next
  case (Cons line lines)
  have *: "filter (\<lambda>k. k \<noteq> [] \<and> k \<notin> insert (strip line) seen) xs =
           filter (\<lambda>y. y \<noteq> strip line) (filter (\<lambda>k. k \<noteq> [] \<and> k \<notin> seen) xs)" for xs
    by (induction xs) auto
  show ?case by (simp add: Cons Let_def * del: insert_iff)
qed

lemma parse_keys_tokens: "parse_keys t = tokens_on separator t"
proof -
  have "parse_keys t =
        dedup_first (nonempty_stripped
          (splitlines (replace 32 10 (replace 9 10 (replace 59 10 (replace 44 10 t))))))"
    by (simp add: parse_keys_def collect_keys_eq nonempty_stripped_def)
  also have "\<dots> = dedup_first (nonempty_stripped (split_on separator t))"
    by (simp add: nonempty_stripped_splitlines split_on_replaced)
  finally show ?thesis by (simp add: tokens_on_def)
qed

section \<open>Key values and rows added by an import\<close>


lemma set_dedup_first [simp]: "set (dedup_first xs) = set xs"
  by (induction xs rule: dedup_first.induct) auto

lemma distinct_dedup_first [simp]: "distinct (dedup_first xs)"
  by (induction xs rule: dedup_first.induct) auto

lemma distinct_parse_keys: "distinct (parse_keys t)"
  by (simp add: parse_keys_tokens tokens_on_def)

lemma insert_loop_eq:
  "distinct ks \<Longrightarrow>
   insert_loop prog dur ks d added_keys skipped =
     (\<lparr>keys = keys d @ fresh_rows prog dur (last_id d) (filter (\<lambda>k. k \<notin> set (map key (keys d))) ks),
       last_id = last_id d + length (filter (\<lambda>k. k \<notin> set (map key (keys d))) ks)\<rparr>,
      added_keys @ filter (\<lambda>k. k \<notin> set (map key (keys d))) ks,
      skipped + length (filter (\<lambda>k. k \<in> set (map key (keys d))) ks))"
proof (induction ks arbitrary: d added_keys skipped)
  case Nil
  then show ?case by simp
next
  case (Cons k ks)
  then have dist: "distinct ks" and notin: "k \<notin> set ks" by simp_all
  show ?case
  proof (cases "k \<in> set (map key (keys d))")
    case True
    then have "insert_key prog dur k d = Inl IntegrityError" by (simp add: insert_key_def)
    with True Cons.IH [OF dist] show ?thesis by simp
  next
    case False
    define d' where "d' = \<lparr>keys = keys d @
        [\<lparr>row_id = last_id d + 1, program = prog, duration = dur, key = k,
          used_by = None, used_for = None, used_at = None\<rparr>], last_id = last_id d + 1\<rparr>"
    have ins: "insert_key prog dur k d = Inr d'"
      using False by (simp add: insert_key_def d'_def)
    have same: "filter (\<lambda>x. x \<notin> set (map key (keys d'))) ks = filter (\<lambda>x. x \<notin> set (map key (keys d))) ks"
      using notin by (intro filter_cong) (auto simp: d'_def)
    have same2: "filter (\<lambda>x. x \<in> set (map key (keys d'))) ks = filter (\<lambda>x. x \<in> set (map key (keys d))) ks"
      using notin by (intro filter_cong) (auto simp: d'_def)
    note step = Cons.IH [OF dist, of d' "added_keys @ [k]" skipped, unfolded same same2]
    show ?thesis
      unfolding insert_loop.simps ins sum.case step using False by (simp add: d'_def)
  qed
qed


lemma split_on_no_sep_all: "\<forall>l \<in> set (split_on sep s). \<forall>c \<in> set l. \<not> sep c"
proof (induction s)
  case Nil
  show ?case by simp
next
  case (Cons a s)
  then show ?case
    by (cases "split_on sep s") auto
qed

lemma split_on_no_sep: "l \<in> set (split_on sep s) \<Longrightarrow> c \<in> set l \<Longrightarrow> \<not> sep c"
  using split_on_no_sep_all by blast

lemma set_strip: "set (strip l) \<subseteq> set l"
proof -
  have "set (strip l) \<subseteq> set (dropWhile is_space l)"
    unfolding strip_def rstrip_def lstrip_def
    by (metis set_dropWhileD set_rev subsetI)
  also have "\<dots> \<subseteq> set l"
    by (auto dest: set_dropWhileD)
  finally show ?thesis .
qed

lemma rstrip_prefix: "s = rstrip s @ rev (takeWhile is_space (rev s))"
proof -
  have "rstrip s @ rev (takeWhile is_space (rev s)) =
        rev (takeWhile is_space (rev s) @ dropWhile is_space (rev s))"
    unfolding rstrip_def by (simp only: rev_append)
  also have "\<dots> = s"
    by (simp only: takeWhile_dropWhile_id rev_rev_ident)
  finally show ?thesis by simp
qed

lemma last_rstrip: "rstrip s \<noteq> [] \<Longrightarrow> \<not> is_space (last (rstrip s))"
  unfolding rstrip_def by (simp add: last_rev hd_dropWhile)

lemma hd_rstrip: "rstrip s \<noteq> [] \<Longrightarrow> hd (rstrip s) = hd s"
  by (metis hd_append2 rstrip_prefix)

lemma strip_ends:
  assumes "strip l \<noteq> []"
  shows "\<not> is_space (hd (strip l))" and "\<not> is_space (last (strip l))"
proof -
  from assms have ne: "rstrip (lstrip l) \<noteq> []" by (simp add: strip_def)
  then have "lstrip l \<noteq> []" by (auto simp: rstrip_def)
  then have "\<not> is_space (hd (lstrip l))" by (simp add: lstrip_def hd_dropWhile)
  with hd_rstrip [OF ne] show "\<not> is_space (hd (strip l))" by (simp add: strip_def)
  from last_rstrip [OF ne] show "\<not> is_space (last (strip l))" by (simp add: strip_def)
qed

lemma clean_tokens_on:
  assumes "k \<in> set (tokens_on sep t)"
  shows "k \<noteq> []" "\<forall>c \<in> set k. \<not> sep c" "\<not> is_space (hd k)" "\<not> is_space (last k)"
proof -
  from assms obtain l where l: "l \<in> set (split_on sep t)" and k: "k = strip l" and ne: "k \<noteq> []"
    by (auto simp: tokens_on_def nonempty_stripped_def)
  show "k \<noteq> []" by (rule ne)
  show "\<forall>c \<in> set k. \<not> sep c"
    using split_on_no_sep [OF l] set_strip [of l] k by blast
  show "\<not> is_space (hd k)" "\<not> is_space (last k)"
    using strip_ends [of l] ne k by simp_all
qed

lemma clean_parse_keys: "k \<in> set (parse_keys t) \<Longrightarrow> clean_key k"
  unfolding parse_keys_tokens clean_key_def using clean_tokens_on [of k separator t] by blast

lemma clean_key_no_linebreak: "clean_key k \<Longrightarrow> c \<in> set k \<Longrightarrow> \<not> is_linebreak c"
  by (auto simp: clean_key_def separator_def)

lemma splitlines_line_nl:
  "\<forall>c \<in> set k. \<not> is_linebreak c \<Longrightarrow> splitlines (k @ 10 # rest) = k # splitlines rest"
proof (induction k)
  case Nil
  show ?case by (cases rest) (simp_all add: is_linebreak_def)
next
  case (Cons c k)
  then have IH: "splitlines (k @ 10 # rest) = k # splitlines rest" and c: "\<not> is_linebreak c"
    by simp_all
  obtain d cs where dcs: "k @ 10 # rest = d # cs" by (cases "k @ 10 # rest") simp_all
  have "c \<noteq> 13" using c by (auto simp: is_linebreak_def)
  then have "splitlines (c # d # cs) = (case splitlines (d # cs) of [] \<Rightarrow> [[c]] | l # ls \<Rightarrow> (c # l) # ls)"
    using c by simp
  with IH dcs show ?case by simp
qed

lemma splitlines_key_lines:
  "\<forall>k \<in> set ks. \<forall>c \<in> set k. \<not> is_linebreak c \<Longrightarrow> splitlines (key_lines ks) = ks"
proof (induction ks)
  case Nil
  show ?case by (simp add: key_lines_def)
next
  case (Cons k ks)
  then have "splitlines (key_lines ks) = ks" by simp
  moreover have "key_lines (k # ks) = k @ 10 # key_lines ks" by (simp add: key_lines_def)
  ultimately show ?case using Cons.prems by (simp add: splitlines_line_nl)
qed

lemma map_key_fresh_rows [simp]: "map key (fresh_rows prog dur n ks) = ks"
  by (induction ks arbitrary: n) simp_all

lemma fresh_rows_ids:
  "r \<in> set (fresh_rows prog dur n ks) \<Longrightarrow> n < row_id r \<and> row_id r \<le> n + length ks"
  by (induction ks arbitrary: n) fastforce+

lemma sorted_fresh_rows: "sorted_wrt (<) (map row_id (fresh_rows prog dur n ks))"
proof (induction ks arbitrary: n)
  case Nil
  show ?case by simp
next
  case (Cons k ks)
  have "\<forall>r \<in> set (fresh_rows prog dur (n + 1) ks). n + 1 < row_id r"
    using fresh_rows_ids by blast
  with Cons [of "n + 1"] show ?case by simp
qed

lemma db_inv_fresh:
  assumes "db_inv d" "distinct ks" "\<forall>k \<in> set ks. clean_key k \<and> k \<notin> set (map key (keys d))"
  shows "db_inv \<lparr>keys = keys d @ fresh_rows prog dur (last_id d) ks, last_id = last_id d + length ks\<rparr>"
proof -
  have ids: "\<forall>r \<in> set (fresh_rows prog dur (last_id d) ks).
               last_id d < row_id r \<and> row_id r \<le> last_id d + length ks"
    using fresh_rows_ids by blast
  have keys_new: "key ` set (fresh_rows prog dur (last_id d) ks) = set ks"
    by (metis map_key_fresh_rows set_map)
  show ?thesis
    unfolding db_inv_def
  proof (intro conjI)
    show "distinct (map key (keys \<lparr>keys = keys d @ fresh_rows prog dur (last_id d) ks,
                                  last_id = last_id d + length ks\<rparr>))"
      using assms by (auto simp: db_inv_def)
    show "sorted_wrt (<) (map row_id (keys \<lparr>keys = keys d @ fresh_rows prog dur (last_id d) ks,
                                  last_id = last_id d + length ks\<rparr>))"
      using assms(1) ids by (fastforce simp: db_inv_def sorted_wrt_append sorted_fresh_rows)
    show "\<forall>r\<in>set (keys \<lparr>keys = keys d @ fresh_rows prog dur (last_id d) ks,
                                  last_id = last_id d + length ks\<rparr>).
            row_id r \<le> last_id \<lparr>keys = keys d @ fresh_rows prog dur (last_id d) ks,
                                  last_id = last_id d + length ks\<rparr>"
      using assms(1) ids by (fastforce simp: db_inv_def)
    show "\<forall>r\<in>set (keys \<lparr>keys = keys d @ fresh_rows prog dur (last_id d) ks,
                                  last_id = last_id d + length ks\<rparr>). clean_key (key r)"
      using assms(1,3) keys_new by (fastforce simp: db_inv_def)
  qed
qed

section \<open>The operations on the store\<close>


lemma db_inv_with_rows:
  "db_inv d \<Longrightarrow> distinct ks \<Longrightarrow> \<forall>k \<in> set ks. clean_key k \<and> k \<notin> set (map key (keys d)) \<Longrightarrow>
   db_inv (with_rows prog dur ks d)"
  unfolding with_rows_def by (rule db_inv_fresh)

lemma with_rows_Nil [simp]: "with_rows prog dur [] d = d"
  by (simp add: with_rows_def)

lemma insert_loop_parse_keys:
  "insert_loop prog dur (parse_keys t) d [] 0 =
     (with_rows prog dur (new_keys t d) d, new_keys t d, length (old_keys t d))"
  using insert_loop_eq [OF distinct_parse_keys, of prog dur t d "[]" 0]
  by (simp add: with_rows_def new_keys_def old_keys_def)

lemma add_stock_via_text_eq:
  "add_stock_via_text prog dur t (d, f) =
     (if new_keys t d = [] then (Inr (0, length (old_keys t d)), d, f)
      else (case open_append (stock_file prog dur) (key_lines (new_keys t d)) f of
              Inl e \<Rightarrow> (Inl e, with_rows prog dur (new_keys t d) d, f)
            | Inr f' \<Rightarrow> (Inr (length (new_keys t d), length (old_keys t d)),
                        with_rows prog dur (new_keys t d) d, f')))"
proof (cases "parse_keys t = []")
  case True
  then show ?thesis
    by (simp add: add_stock_via_text_def new_keys_def old_keys_def)
next
  case False
  then show ?thesis
    by (simp add: add_stock_via_text_def Let_def insert_loop_parse_keys new_keys_def
        split: sum.splits)
qed

lemma add_stock_db:
  "fst (snd (add_stock_via_text prog dur t (d, f))) = with_rows prog dur (new_keys t d) d"
  by (simp add: add_stock_via_text_eq split: sum.splits)

lemma distinct_new_keys: "distinct (new_keys t d)"
  by (simp add: new_keys_def distinct_parse_keys)

lemma new_keys_fresh: "k \<in> set (new_keys t d) \<Longrightarrow> clean_key k \<and> k \<notin> set (map key (keys d))"
  by (auto simp: new_keys_def clean_parse_keys)

lemma db_inv_add_stock:
  "db_inv d \<Longrightarrow> db_inv (fst (snd (add_stock_via_text prog dur t (d, f))))"
  unfolding add_stock_db
  by (rule db_inv_with_rows) (use distinct_new_keys new_keys_fresh in blast)+

lemma db_inv_distinct_ids: "db_inv d \<Longrightarrow> distinct (map row_id (keys d))"
  by (simp add: db_inv_def strict_sorted_iff)

lemma claim_one_None:
  "\<forall>r \<in> set (keys d). \<not> unused prog dur r \<Longrightarrow>
   claim_one prog dur reseller_id buyer_id now d = (None, d)"
proof -
  assume "\<forall>r \<in> set (keys d). \<not> unused prog dur r"
  then have "find (unused prog dur) (keys d) = None" by (simp add: find_None_iff)
  then show ?thesis by (simp add: claim_one_def)
qed

lemma claim_one_Some:
  assumes inv: "db_inv d"
    and split: "keys d = pre @ row # post"
    and pre: "\<forall>r \<in> set pre. \<not> unused prog dur r"
    and row: "unused prog dur row"
  shows "claim_one prog dur reseller_id buyer_id now d =
           (Some (key row), d\<lparr>keys := pre @ claimed reseller_id buyer_id now row # post\<rparr>)"
proof -
  have found: "find (unused prog dur) (keys d) = Some row"
    unfolding split using pre row by (induction pre) simp_all
  from db_inv_distinct_ids [OF inv] split
  have "distinct (map row_id pre @ row_id row # map row_id post)"
    by simp
  then have ids: "\<forall>r \<in> set pre \<union> set post. row_id r \<noteq> row_id row"
    by (metis Un_iff distinct.simps(2) distinct_append image_eqI list.set_map
        not_distinct_conv_prefix append_Cons append_Nil disjoint_iff set_ConsD list.set_intros(1))
  have m: "map (\<lambda>r. if row_id r = row_id row
                      then r\<lparr>used_by := Some reseller_id, used_for := Some buyer_id,
                             used_at := Some now\<rparr>
                      else r) (keys d) = pre @ claimed reseller_id buyer_id now row # post"
    using ids by (simp add: split map_idI claimed_def)
  show ?thesis
    unfolding claim_one_def found by (simp add: Let_def m)
qed

lemma first_unused_split:
  assumes "\<exists>r \<in> set xs. unused prog dur r"
  shows "\<exists>pre row post. xs = pre @ row # post \<and> unused prog dur row \<and>
           (\<forall>r \<in> set pre. \<not> unused prog dur r)"
  using assms by (metis split_list_first_prop)

lemma claim_one_keys:
  "map key (keys (snd (claim_one prog dur a b now d))) = map key (keys d) \<and>
   map row_id (keys (snd (claim_one prog dur a b now d))) = map row_id (keys d) \<and>
   last_id (snd (claim_one prog dur a b now d)) = last_id d"
  by (auto simp: claim_one_def split: option.splits)

lemma db_inv_claim_one:
  assumes inv: "db_inv d"
  shows "db_inv (snd (claim_one prog dur a b now d))"
proof -
  define d' where "d' = snd (claim_one prog dur a b now d)"
  have k: "map key (keys d') = map key (keys d)"
    and i: "map row_id (keys d') = map row_id (keys d)"
    and l: "last_id d' = last_id d"
    using claim_one_keys [of prog dur a b now d] by (simp_all add: d'_def)
  have "row_id r \<le> last_id d'" if "r \<in> set (keys d')" for r
  proof -
    from that have "row_id r \<in> set (map row_id (keys d'))" by simp
    then obtain r0 where "r0 \<in> set (keys d)" "row_id r0 = row_id r" unfolding i by auto
    with inv l show ?thesis by (auto simp: db_inv_def)
  qed
  moreover have "clean_key (key r)" if "r \<in> set (keys d')" for r
  proof -
    from that have "key r \<in> set (map key (keys d'))" by simp
    then obtain r0 where "r0 \<in> set (keys d)" "key r0 = key r" unfolding k by auto
    with inv show ?thesis by (auto simp: db_inv_def)
  qed
  ultimately have "db_inv d'"
    using inv unfolding db_inv_def k i by blast
  then show ?thesis by (simp add: d'_def)
qed


lemma pop_key_result:
  "fst (pop_key prog dur a b now (d, f)) = fst (claim_one prog dur a b now d)"
  by (cases "claim_one prog dur a b now d")
     (auto simp: pop_key_def split: option.splits sum.splits)

lemma pop_key_db:
  "fst (snd (pop_key prog dur a b now (d, f))) = snd (claim_one prog dur a b now d)"
  by (cases "claim_one prog dur a b now d")
     (auto simp: pop_key_def split: option.splits sum.splits)

lemma clear_stock_db:
  "fst (snd (clear_stock_cmd owner_ids user_id prog dur (d, f))) =
     (if user_id \<in> owner_ids then d\<lparr>keys := filter (\<lambda>r. \<not> unused prog dur r) (keys d)\<rparr> else d)"
  by (simp add: clear_stock_cmd_def Let_def split: sum.splits)

lemma db_inv_filter: "db_inv d \<Longrightarrow> db_inv (d\<lparr>keys := filter P (keys d)\<rparr>)"
  unfolding db_inv_def
  by (simp add: distinct_map_filter sorted_wrt_map sorted_wrt_filter)

lemma db_inv_step: "db_inv (fst st) \<Longrightarrow> db_inv (fst (step owner_ids op st))"
proof (cases st)
  case (Pair d f)
  assume "db_inv (fst st)"
  with Pair have inv: "db_inv d" by simp
  show ?thesis
  proof (cases op)
    case (AddStock prog dur t)
    with Pair db_inv_add_stock [OF inv] show ?thesis by simp
  next
    case (PopKey prog dur a b now)
    with Pair db_inv_claim_one [OF inv] show ?thesis by (simp add: pop_key_db)
  next
    case (ClearStock u prog dur)
    with Pair inv db_inv_filter [OF inv] show ?thesis by (simp add: clear_stock_db)
  qed
qed

lemma db_inv_init: "db_inv init_db"
  by (simp add: db_inv_def init_db_def)

lemma reachable_db_inv: "reachable owner_ids st \<Longrightarrow> db_inv (fst st)"
  by (induction rule: reachable.induct) (simp_all add: db_inv_init db_inv_step)

lemma reachable_run: "reachable owner_ids st \<Longrightarrow> reachable owner_ids (run owner_ids ops st)"
  unfolding run_def by (induction ops arbitrary: st) (simp_all add: reachable_step)

lemma used_row_kept_step:
  assumes inv: "db_inv (fst st)" and r: "r \<in> set (keys (fst st))" and used: "used_at r \<noteq> None"
  shows "r \<in> set (keys (fst (step owner_ids op st)))"
proof (cases st)
  case (Pair d f)
  with inv r have inv: "db_inv d" and r: "r \<in> set (keys d)" by simp_all
  show ?thesis
  proof (cases op)
    case (AddStock prog dur t)
    with Pair r show ?thesis by (simp add: add_stock_db with_rows_def)
  next
    case (ClearStock u prog dur)
    with Pair r used show ?thesis by (simp add: clear_stock_db unused_def)
  next
    case (PopKey prog dur a b now)
    have "r \<in> set (keys (snd (claim_one prog dur a b now d)))"
    proof (cases "\<exists>x \<in> set (keys d). unused prog dur x")
      case False
      then show ?thesis using r by (simp add: claim_one_None)
    next
      case True
      from first_unused_split [OF this] obtain pre row post where
        split: "keys d = pre @ row # post" and row: "unused prog dur row"
        and pre: "\<forall>x \<in> set pre. \<not> unused prog dur x" by blast
      from row used have "r \<noteq> row" by (auto simp: unused_def)
      with r split have "r \<in> set pre \<union> set post" by auto
      then show ?thesis
        by (auto simp: claim_one_Some [OF inv split pre row])
    qed
    with Pair PopKey show ?thesis by (simp add: pop_key_db)
  qed
qed

lemma used_row_kept_run:
  "reachable owner_ids st \<Longrightarrow> r \<in> set (keys (fst st)) \<Longrightarrow> used_at r \<noteq> None \<Longrightarrow>
   r \<in> set (keys (fst (run owner_ids ops st)))"
proof (induction ops arbitrary: st)
  case Nil
  then show ?case by (simp add: run_def)
next
  case (Cons op ops)
  have "reachable owner_ids (step owner_ids op st)"
    using Cons.prems(1) by (rule reachable_step)
  moreover have "r \<in> set (keys (fst (step owner_ids op st)))"
    using used_row_kept_step [OF reachable_db_inv [OF Cons.prems(1)] Cons.prems(2,3)] .
  ultimately have "r \<in> set (keys (fst (run owner_ids ops (step owner_ids op st))))"
    using Cons.IH Cons.prems(3) by blast
  then show ?case by (simp add: run_def)
qed

lemma claim_one_returns_unused:
  "fst (claim_one prog dur a b now d) = Some v \<Longrightarrow>
   \<exists>row \<in> set (keys d). unused prog dur row \<and> key row = v"
  by (auto simp: claim_one_def Let_def find_Some_iff split: option.splits)

lemma remove_False_unchanged:
  "remove_key_from_txt prog dur v f = Inr (False, f') \<Longrightarrow> f' = f"
  by (auto simp: remove_key_from_txt_def Let_def split: option.splits sum.splits if_splits)

section \<open>Evaluating the example states\<close>


lemmas string_defs =
  py_def replace_def is_linebreak_def is_space_def strip_def lstrip_def rstrip_def

lemma parse_K1_K2: "parse_keys (py ''K1 K2'') = [py ''K1'', py ''K2'']"
  by (simp add: parse_keys_def string_defs)

lemma import_K1_K2:
  "add_stock_via_text ''temp'' ''day'' (py ''K1 K2'') (init_db, Map.empty) =
     (Inr (2, 0), stocked_db, stocked_fs)"
  by (simp add: add_stock_via_text_eq new_keys_def old_keys_def parse_K1_K2 with_rows_def
      init_db_def open_append_def stock_file_def key_lines_def)

lemma splitlines_K1_K2:
  "splitlines (py ''K1'' @ [10] @ py ''K2'' @ [10]) = [py ''K1'', py ''K2'']"
  by (simp add: string_defs)

lemma pop_stocked:
  "pop_key ''temp'' ''day'' 7 8 stamp (stocked_db, stocked_fs) = (Some (py ''K1''), sold_db, sold_fs)"
  by (simp add: pop_key_def claim_one_def unused_def remove_key_from_txt_def stock_file_def
      open_write_def rewritten_def string_defs Let_def)

lemma reachable_stocked: "reachable owner_ids (stocked_db, stocked_fs)"
proof -
  have "reachable owner_ids
          (step owner_ids (AddStock ''temp'' ''day'' (py ''K1 K2'')) (init_db, Map.empty))"
    by (rule reachable_step [OF reachable_init])
  then show ?thesis by (simp only: step.simps import_K1_K2 snd_conv)
qed

lemma reachable_sold: "reachable owner_ids (sold_db, sold_fs)"
proof -
  have "reachable owner_ids
          (step owner_ids (PopKey ''temp'' ''day'' 7 8 stamp) (stocked_db, stocked_fs))"
    by (rule reachable_step [OF reachable_stocked])
  then show ?thesis by (simp only: step.simps pop_stocked snd_conv)
qed


section \<open>Claims about the store\<close>

text \<open>
  C2.  In every reachable state no two rows of the table hold the same key
  value, whatever their programs and durations; and the insert of an import is
  refused with \<open>IntegrityError\<close> exactly when the value is already held by some
  row, and otherwise adds one unclaimed row with that value.
\<close>

theorem global_key_uniqueness:
  assumes "reachable owner_ids (d, f)"
  shows "distinct (map key (keys d)) \<and>
         (k \<in> set (map key (keys d)) \<longrightarrow> insert_key prog dur k d = Inl IntegrityError) \<and>
         (k \<notin> set (map key (keys d)) \<longrightarrow> insert_key prog dur k d = Inr (with_rows prog dur [k] d))"
proof -
  from reachable_db_inv [OF assms] have "distinct (map key (keys d))"
    by (simp add: db_inv_def)
  then show ?thesis
    by (simp add: insert_key_def with_rows_def)
qed

theorem global_key_uniqueness_witness:
  "reachable {1} (stocked_db, stocked_fs) \<and>
   distinct (map key (keys stocked_db)) \<and>
   py ''K1'' \<in> set (map key (keys stocked_db)) \<and>
   insert_key ''perm'' ''week'' (py ''K1'') stocked_db = Inl IntegrityError \<and>
   py ''K3'' \<notin> set (map key (keys stocked_db)) \<and>
   insert_key ''perm'' ''week'' (py ''K3'') stocked_db =
     Inr (with_rows ''perm'' ''week'' [py ''K3''] stocked_db)"
proof -
  have r: "reachable {1} (stocked_db, stocked_fs)" by (rule reachable_stocked)
  have m1: "py ''K1'' \<in> set (map key (keys stocked_db))" by simp
  have m3: "py ''K3'' \<notin> set (map key (keys stocked_db))" by (simp add: py_def)
  from global_key_uniqueness [OF r, of "py ''K1''" "''perm''" "''week''"]
       global_key_uniqueness [OF r, of "py ''K3''" "''perm''" "''week''"] r m1 m3
  show ?thesis by blast
qed

text \<open>
  C3.  A row whose \<open>used_at\<close> is set stays in the table, unchanged in every
  field, through any sequence of imports, claims and clearings; it is not among
  the rows that \<open>get_stock_count\<close> counts; no later \<open>pop_key\<close> returns its
  value; and the rows that \<open>clear_stock_cmd\<close> deletes all have \<open>used_at\<close>
  null and belong to the cleared pool.
\<close>

theorem claimed_rows_are_permanent:
  assumes "reachable owner_ids (d, f)" and "r \<in> set (keys d)" and "used_at r \<noteq> None"
  shows "r \<in> set (keys (fst (run owner_ids ops (d, f)))) \<and>
         get_stock_count prog dur (fst (run owner_ids ops (d, f))) =
           length (filter (\<lambda>x. x \<noteq> r \<and> unused prog dur x)
                     (keys (fst (run owner_ids ops (d, f))))) \<and>
         fst (pop_key prog dur reseller_id buyer_id now (run owner_ids ops (d, f))) \<noteq> Some (key r) \<and>
         (\<forall>x \<in> set (keys d).
            x \<notin> set (keys (fst (snd (clear_stock_cmd owner_ids user_id prog dur (d, f))))) \<longrightarrow>
            used_at x = None \<and> program x = prog \<and> duration x = dur)"
proof -
  obtain d' f' where st': "run owner_ids ops (d, f) = (d', f')"
    by (cases "run owner_ids ops (d, f)")
  have kept: "r \<in> set (keys d')"
    using used_row_kept_run [OF assms(1), of r ops] assms(2,3) st' by simp
  have "reachable owner_ids (d', f')"
    using reachable_run [OF assms(1), of ops] st' by simp
  then have inv: "db_inv d'"
    using reachable_db_inv by fastforce
  have count: "get_stock_count prog dur d' =
                 length (filter (\<lambda>x. x \<noteq> r \<and> unused prog dur x) (keys d'))"
  proof -
    have "filter (unused prog dur) (keys d') = filter (\<lambda>x. x \<noteq> r \<and> unused prog dur x) (keys d')"
      using assms(3) by (intro filter_cong) (auto simp: unused_def)
    then show ?thesis by (simp add: get_stock_count_def)
  qed
  have never: "fst (pop_key prog dur reseller_id buyer_id now (d', f')) \<noteq> Some (key r)"
  proof
    assume "fst (pop_key prog dur reseller_id buyer_id now (d', f')) = Some (key r)"
    then have "fst (claim_one prog dur reseller_id buyer_id now d') = Some (key r)"
      by (simp add: pop_key_result)
    from claim_one_returns_unused [OF this] obtain row where
      row: "row \<in> set (keys d')" "unused prog dur row" "key row = key r" by blast
    from inv have "inj_on key (set (keys d'))"
      by (simp add: db_inv_def distinct_map)
    with row(1,3) kept have "row = r" by (auto dest: inj_onD)
    with row(2) assms(3) show False by (simp add: unused_def)
  qed
  have cleared: "\<forall>x \<in> set (keys d).
      x \<notin> set (keys (fst (snd (clear_stock_cmd owner_ids user_id prog dur (d, f))))) \<longrightarrow>
      used_at x = None \<and> program x = prog \<and> duration x = dur"
    by (auto simp: clear_stock_db unused_def)
  from kept count never cleared show ?thesis
    unfolding st' by simp
qed

theorem claimed_rows_are_permanent_witness:
  "reachable {1} (sold_db, sold_fs) \<and> row1_claimed \<in> set (keys sold_db) \<and>
   used_at row1_claimed \<noteq> None \<and>
   row1_claimed \<in> set (keys (fst (run {1}
     [ClearStock 1 ''temp'' ''day'', AddStock ''temp'' ''day'' (py ''K1 K9'')] (sold_db, sold_fs)))) \<and>
   fst (pop_key ''temp'' ''day'' 7 9 stamp (run {1}
     [ClearStock 1 ''temp'' ''day'', AddStock ''temp'' ''day'' (py ''K1 K9'')] (sold_db, sold_fs)))
     \<noteq> Some (key row1_claimed)"
proof -
  have r: "reachable {1} (sold_db, sold_fs)" by (rule reachable_sold)
  have m: "row1_claimed \<in> set (keys sold_db)" by simp
  have u: "used_at row1_claimed \<noteq> None" by simp
  from claimed_rows_are_permanent [OF r m u,
      of "[ClearStock 1 ''temp'' ''day'', AddStock ''temp'' ''day'' (py ''K1 K9'')]"
         "''temp''" "''day''" 7 9 stamp] r m u
  show ?thesis by blast
qed

text \<open>
  C4.  In a reachable state whose pool (program, duration) holds an unclaimed
  row, \<open>pop_key\<close> takes the first unclaimed row of the pool in table order,
  which is the one with the least row id and so the earliest inserted; it
  returns the value of that row and replaces exactly that row by its copy with
  \<open>used_by\<close>, \<open>used_for\<close> and \<open>used_at\<close> set to the reseller, the buyer and the
  current time; every other row and the counter stay as they were.
\<close>

theorem pop_key_claims_earliest:
  assumes "reachable owner_ids (d, f)" and "\<exists>r \<in> set (keys d). unused prog dur r"
  shows "\<exists>pre row post.
           keys d = pre @ row # post \<and> unused prog dur row \<and>
           (\<forall>r \<in> set pre. \<not> unused prog dur r) \<and>
           (\<forall>r \<in> set (keys d). unused prog dur r \<longrightarrow> row_id row \<le> row_id r) \<and>
           fst (pop_key prog dur reseller_id buyer_id now (d, f)) = Some (key row) \<and>
           fst (snd (pop_key prog dur reseller_id buyer_id now (d, f))) =
             d\<lparr>keys := pre @ claimed reseller_id buyer_id now row # post\<rparr>"
proof -
  from reachable_db_inv [OF assms(1)] have inv: "db_inv d" by simp
  from first_unused_split [OF assms(2)] obtain pre row post where
    split: "keys d = pre @ row # post" and row: "unused prog dur row"
    and pre: "\<forall>x \<in> set pre. \<not> unused prog dur x" by blast
  from inv have "sorted_wrt (<) (map row_id pre @ row_id row # map row_id post)"
    by (simp add: db_inv_def split)
  then have later: "\<forall>x \<in> set post. row_id row < row_id x"
    by (simp add: sorted_wrt_append)
  have least: "\<forall>x \<in> set (keys d). unused prog dur x \<longrightarrow> row_id row \<le> row_id x"
    using pre later by (auto simp: split)
  note c = claim_one_Some [OF inv split pre row, of reseller_id buyer_id now]
  have "fst (pop_key prog dur reseller_id buyer_id now (d, f)) = Some (key row)"
    by (simp add: pop_key_result c)
  moreover have "fst (snd (pop_key prog dur reseller_id buyer_id now (d, f))) =
                   d\<lparr>keys := pre @ claimed reseller_id buyer_id now row # post\<rparr>"
    by (simp add: pop_key_db c)
  ultimately show ?thesis
    using split row pre least by blast
qed

theorem pop_key_claims_earliest_witness:
  "reachable {1} (sold_db, sold_fs) \<and> (\<exists>r \<in> set (keys sold_db). unused ''temp'' ''day'' r) \<and>
   (\<exists>pre row post.
      keys sold_db = pre @ row # post \<and> unused ''temp'' ''day'' row \<and>
      (\<forall>r \<in> set pre. \<not> unused ''temp'' ''day'' r) \<and>
      (\<forall>r \<in> set (keys sold_db). unused ''temp'' ''day'' r \<longrightarrow> row_id row \<le> row_id r) \<and>
      fst (pop_key ''temp'' ''day'' 7 9 stamp (sold_db, sold_fs)) = Some (key row) \<and>
      fst (snd (pop_key ''temp'' ''day'' 7 9 stamp (sold_db, sold_fs))) =
        sold_db\<lparr>keys := pre @ claimed 7 9 stamp row # post\<rparr>)"
proof -
  have r: "reachable {1} (sold_db, sold_fs)" by (rule reachable_sold)
  have u: "\<exists>r \<in> set (keys sold_db). unused ''temp'' ''day'' r" by (simp add: unused_def)
  from pop_key_claims_earliest [OF r u, of 7 9 stamp] r u
  show ?thesis by blast
qed

text \<open>
  C7.  When no row of the pool (program, duration) is unclaimed, \<open>pop_key\<close>
  returns \<open>None\<close> and leaves the table, and the mirror files, exactly as they
  were.
\<close>

theorem pop_key_pool_empty:
  assumes "\<forall>r \<in> set (keys d). \<not> unused prog dur r"
  shows "pop_key prog dur reseller_id buyer_id now (d, f) = (None, d, f)"
  by (simp add: pop_key_def claim_one_None [OF assms])

theorem pop_key_pool_empty_witness:
  "list_all (\<lambda>r. \<not> unused ''perm'' ''week'' r) (keys sold_db) \<and>
   pop_key ''perm'' ''week'' 7 9 stamp (sold_db, sold_fs) = (None, sold_db, sold_fs)"
proof -
  have e: "\<forall>r \<in> set (keys sold_db). \<not> unused ''perm'' ''week'' r" by (simp add: unused_def)
  from pop_key_pool_empty [OF e, of 7 9 stamp sold_fs] e show ?thesis
    by (simp only: list_all_iff)
qed

text \<open>
  C8.  Whenever the transaction of \<open>pop_key\<close> claims a value, \<open>pop_key\<close> returns
  that value and the table it committed, whatever the mirror file is: when the
  removal from the mirror raises, and when it reports that no line matched,
  the result is the same and the mirror files are left as they were.
\<close>

theorem pop_key_returns_despite_mirror:
  assumes "claim_one prog dur reseller_id buyer_id now d = (Some v, d')"
  shows "fst (pop_key prog dur reseller_id buyer_id now (d, f)) = Some v \<and>
         fst (snd (pop_key prog dur reseller_id buyer_id now (d, f))) = d' \<and>
         (\<forall>e. remove_key_from_txt prog dur v f = Inl e \<longrightarrow>
              pop_key prog dur reseller_id buyer_id now (d, f) = (Some v, d', f)) \<and>
         (\<forall>f'. remove_key_from_txt prog dur v f = Inr (False, f') \<longrightarrow>
              pop_key prog dur reseller_id buyer_id now (d, f) = (Some v, d', f))"
proof -
  have "fst (pop_key prog dur reseller_id buyer_id now (d, f)) = Some v"
    by (simp add: pop_key_result assms)
  moreover have "fst (snd (pop_key prog dur reseller_id buyer_id now (d, f))) = d'"
    by (simp add: pop_key_db assms)
  moreover have "pop_key prog dur reseller_id buyer_id now (d, f) = (Some v, d', f)"
    if "remove_key_from_txt prog dur v f = Inl e" for e
    using that by (simp add: pop_key_def assms)
  moreover have "pop_key prog dur reseller_id buyer_id now (d, f) = (Some v, d', f)"
    if "remove_key_from_txt prog dur v f = Inr (False, f')" for f'
    using that remove_False_unchanged [OF that] by (simp add: pop_key_def assms)
  ultimately show ?thesis by blast
qed

theorem pop_key_returns_despite_mirror_witness:
  "claim_one ''temp'' ''day'' 7 8 stamp stocked_db = (Some (py ''K1''), sold_db) \<and>
   remove_key_from_txt ''temp'' ''day'' (py ''K1'') [''temp_day.txt'' \<mapsto> Unopenable] = Inl OSError \<and>
   pop_key ''temp'' ''day'' 7 8 stamp (stocked_db, [''temp_day.txt'' \<mapsto> Unopenable]) =
     (Some (py ''K1''), sold_db, [''temp_day.txt'' \<mapsto> Unopenable])"
proof -
  have c: "claim_one ''temp'' ''day'' 7 8 stamp stocked_db = (Some (py ''K1''), sold_db)"
    by (simp add: claim_one_def unused_def)
  have e: "remove_key_from_txt ''temp'' ''day'' (py ''K1'') [''temp_day.txt'' \<mapsto> Unopenable] =
             Inl OSError"
    by (simp add: remove_key_from_txt_def stock_file_def)
  from pop_key_returns_despite_mirror [OF c, of "[''temp_day.txt'' \<mapsto> Unopenable]"] c e
  show ?thesis by blast
qed


section \<open>Claims about the import\<close>

lemma new_keys_after_import: "new_keys t (with_rows prog dur (new_keys t d) d) = []"
proof -
  have "k \<in> set (map key (keys (with_rows prog dur (new_keys t d) d)))"
    if "k \<in> set (parse_keys t)" for k
    using that by (cases "k \<in> set (map key (keys d))") (auto simp: with_rows_def new_keys_def)
  then show ?thesis
    by (simp add: new_keys_def filter_empty_conv del: set_map)
qed

lemma old_keys_after_import:
  "old_keys t (with_rows prog dur (new_keys t d) d) = parse_keys t"
proof -
  have "k \<in> set (map key (keys (with_rows prog dur (new_keys t d) d)))"
    if "k \<in> set (parse_keys t)" for k
    using that by (cases "k \<in> set (map key (keys d))") (auto simp: with_rows_def new_keys_def)
  then show ?thesis
    by (simp add: old_keys_def filter_id_conv del: set_map)
qed

lemma reimport:
  "fst (add_stock_via_text prog dur t (snd (add_stock_via_text prog dur t (d, f)))) =
     Inr (0, length (parse_keys t))"
proof -
  obtain r d1 f1 where first: "add_stock_via_text prog dur t (d, f) = (r, d1, f1)"
    by (cases "add_stock_via_text prog dur t (d, f)") auto
  then have d1: "d1 = with_rows prog dur (new_keys t d) d"
    using add_stock_db [of prog dur t d f] by simp
  have second: "fst (add_stock_via_text prog dur t (d1, f1)) = Inr (0, length (parse_keys t))"
    unfolding d1
    by (simp add: add_stock_via_text_eq new_keys_after_import old_keys_after_import)
  show ?thesis
    unfolding first snd_conv by (rule second)
qed

lemma parse_A_A_B: "parse_keys (py ''A A B'') = [py ''A'', py ''B'']"
  by (simp add: parse_keys_def string_defs)

lemma import_A_A_B:
  "fst (add_stock_via_text prog dur (py ''A A B'') (init_db, Map.empty)) = Inr (2, 0)"
  by (simp add: add_stock_via_text_eq new_keys_def old_keys_def parse_A_A_B init_db_def
      open_append_def)

text \<open>
  C5, as the code has it.  The tokens of an import are those of the text split
  on comma, semicolon, tab, space and every line boundary of \<open>splitlines\<close>
  (LF, CR, VT, FF, FS, GS, RS, NEL, LINE SEPARATOR, PARAGRAPH SEPARATOR), each
  trimmed, the empty ones dropped, first occurrences kept.  An import that
  returns reports as \<open>added\<close> the number of tokens the store did not hold and
  as \<open>skipped\<close> the number it held; repeats inside the batch count in neither.
  Importing the same text again reports no addition and every token as a
  duplicate, and importing \<open>A A B\<close> into an empty store reports \<open>(2, 0)\<close>.
\<close>

theorem import_text_counts:
  assumes "fst (add_stock_via_text prog dur raw_text (d, f)) = Inr (added, skipped)"
  shows "parse_keys raw_text = tokens_on separator raw_text \<and>
         added = length (filter (\<lambda>k. k \<notin> set (map key (keys d))) (tokens_on separator raw_text)) \<and>
         skipped = length (filter (\<lambda>k. k \<in> set (map key (keys d))) (tokens_on separator raw_text)) \<and>
         fst (add_stock_via_text prog dur raw_text
                (snd (add_stock_via_text prog dur raw_text (d, f)))) =
           Inr (0, length (tokens_on separator raw_text)) \<and>
         fst (add_stock_via_text prog dur (py ''A A B'') (init_db, Map.empty)) = Inr (2, 0)"
proof -
  have counts: "added = length (new_keys raw_text d) \<and> skipped = length (old_keys raw_text d)"
    using assms by (auto simp: add_stock_via_text_eq split: if_splits sum.splits)
  then show ?thesis
    using reimport [of prog dur raw_text d f] import_A_A_B [of prog dur]
    by (simp add: new_keys_def old_keys_def parse_keys_tokens)
qed

theorem import_text_counts_witness:
  "fst (add_stock_via_text ''temp'' ''day'' (py ''K1 K2'') (init_db, Map.empty)) = Inr (2, 0) \<and>
   parse_keys (py ''K1 K2'') = tokens_on separator (py ''K1 K2'') \<and>
   fst (add_stock_via_text ''temp'' ''day'' (py ''K1 K2'')
          (snd (add_stock_via_text ''temp'' ''day'' (py ''K1 K2'') (init_db, Map.empty)))) =
     Inr (0, length (tokens_on separator (py ''K1 K2'')))"
proof -
  have h: "fst (add_stock_via_text ''temp'' ''day'' (py ''K1 K2'') (init_db, Map.empty)) = Inr (2, 0)"
    by (simp only: import_K1_K2 fst_conv)
  from import_text_counts [OF h] h show ?thesis by blast
qed

theorem import_text_spec_separators_counterexample:
  "parse_keys (py ''A'' @ [12] @ py ''B'') = [py ''A'', py ''B''] \<and>
   tokens_on spec_separator (py ''A'' @ [12] @ py ''B'') = [py ''A'' @ [12] @ py ''B''] \<and>
   parse_keys (py ''A'' @ [12] @ py ''B'') \<noteq> tokens_on spec_separator (py ''A'' @ [12] @ py ''B'') \<and>
   fst (add_stock_via_text ''temp'' ''day'' (py ''A'' @ [12] @ py ''B'') (init_db, Map.empty)) =
     Inr (2, 0)"
proof -
  have p: "parse_keys (py ''A'' @ [12] @ py ''B'') = [py ''A'', py ''B'']"
    by (simp add: parse_keys_def string_defs)
  have t: "tokens_on spec_separator (py ''A'' @ [12] @ py ''B'') = [py ''A'' @ [12] @ py ''B'']"
    by (simp add: tokens_on_def nonempty_stripped_def spec_separator_def string_defs)
  have n: "[py ''A'', py ''B''] \<noteq> [py ''A'' @ [12] @ py ''B'']"
    by simp
  have i: "fst (add_stock_via_text ''temp'' ''day'' (py ''A'' @ [12] @ py ''B'') (init_db, Map.empty)) =
     Inr (2, 0)"
    unfolding add_stock_via_text_eq new_keys_def old_keys_def p
    by (simp add: init_db_def open_append_def)
  from p t n i show ?thesis by (simp only: simp_thms)
qed

text \<open>
  C6.  When an import returns, the table has grown by one unclaimed row for
  each token the store did not hold, in the order of the text, and exactly
  those values, one per line and in that order, have been appended to the
  mirror file of the pool; when no value was inserted no mirror file has
  changed.
\<close>

theorem import_appends_inserted_to_mirror:
  assumes "add_stock_via_text prog dur raw_text (d, f) = (Inr (added, skipped), d', f')"
  shows "keys d' = keys d @ fresh_rows prog dur (last_id d) (new_keys raw_text d) \<and>
         map key (fresh_rows prog dur (last_id d) (new_keys raw_text d)) = new_keys raw_text d \<and>
         added = length (new_keys raw_text d) \<and>
         (new_keys raw_text d \<noteq> [] \<longrightarrow>
            f' = f(stock_file prog dur \<mapsto>
                    Regular (mirror_text (f (stock_file prog dur)) @ key_lines (new_keys raw_text d)))) \<and>
         (new_keys raw_text d = [] \<longrightarrow> f' = f) \<and>
         splitlines (key_lines (new_keys raw_text d)) = new_keys raw_text d"
proof -
  have lines: "splitlines (key_lines (new_keys raw_text d)) = new_keys raw_text d"
    by (rule splitlines_key_lines) (use new_keys_fresh clean_key_no_linebreak in blast)
  have db: "d' = with_rows prog dur (new_keys raw_text d) d"
    using add_stock_db [of prog dur raw_text d f] assms by simp
  have "added = length (new_keys raw_text d)"
    using assms by (auto simp: add_stock_via_text_eq split: if_splits sum.splits)
  moreover have "f' = f" if "new_keys raw_text d = []"
    using assms that by (simp add: add_stock_via_text_eq)
  moreover have "f' = f(stock_file prog dur \<mapsto>
        Regular (mirror_text (f (stock_file prog dur)) @ key_lines (new_keys raw_text d)))"
    if "new_keys raw_text d \<noteq> []"
    using assms that
    by (auto simp: add_stock_via_text_eq open_append_def
        split: sum.splits option.splits fnode.splits)
  ultimately show ?thesis
    using lines db by (simp add: with_rows_def)
qed

theorem import_appends_inserted_to_mirror_witness:
  "add_stock_via_text ''temp'' ''day'' (py ''K2,K3;K3'') (sold_db, sold_fs) =
     (Inr (1, 1),
      \<lparr>keys = [row1_claimed, row2,
               \<lparr>row_id = 3, program = ''temp'', duration = ''day'', key = py ''K3'',
                used_by = None, used_for = None, used_at = None\<rparr>], last_id = 3\<rparr>,
      [''temp_day.txt'' \<mapsto> Regular (py ''K2'' @ [10] @ py ''K3'' @ [10])]) \<and>
   new_keys (py ''K2,K3;K3'') sold_db = [py ''K3'']"
proof -
  have p: "parse_keys (py ''K2,K3;K3'') = [py ''K2'', py ''K3'']"
    by (simp add: parse_keys_def string_defs)
  have n: "new_keys (py ''K2,K3;K3'') sold_db = [py ''K3'']"
    unfolding new_keys_def p by (simp add: py_def)
  have o: "old_keys (py ''K2,K3;K3'') sold_db = [py ''K2'']"
    unfolding old_keys_def p by (simp add: py_def)
  have a: "add_stock_via_text ''temp'' ''day'' (py ''K2,K3;K3'') (sold_db, sold_fs) =
     (Inr (1, 1),
      \<lparr>keys = [row1_claimed, row2,
               \<lparr>row_id = 3, program = ''temp'', duration = ''day'', key = py ''K3'',
                used_by = None, used_for = None, used_at = None\<rparr>], last_id = 3\<rparr>,
      [''temp_day.txt'' \<mapsto> Regular (py ''K2'' @ [10] @ py ''K3'' @ [10])])"
    unfolding add_stock_via_text_eq n o
    by (simp add: with_rows_def open_append_def stock_file_def key_lines_def)
  from import_appends_inserted_to_mirror [OF a] a n show ?thesis by blast
qed


section \<open>Lines of the mirror file\<close>

lemma splitlines_append_nl:
  "old = [] \<or> last old = 10 \<Longrightarrow> splitlines (old @ x) = splitlines old @ splitlines x"
proof (induction old rule: splitlines.induct)
  case 1
  show ?case by simp
next
  case (2 c)
  then have "c = 10" by simp
  then show ?case by (cases x) (simp_all add: is_linebreak_def)
next
  case (3 c d cs)
  then have last: "last (d # cs) = 10" by simp
  show ?case
  proof (cases "c = 13 \<and> d = 10")
    case True
    moreover have "cs = [] \<or> last cs = 10" using last by (cases cs) simp_all
    ultimately show ?thesis using 3(1) by simp
  next
    case False
    note nocrlf = this
    from 3(2,3) last nocrlf have IH:
      "splitlines ((d # cs) @ x) = splitlines (d # cs) @ splitlines x"
      by (cases "is_linebreak c") simp_all
    show ?thesis
    proof (cases "is_linebreak c")
      case True
      have "splitlines (c # d # (cs @ x)) = [] # splitlines (d # (cs @ x))"
        using nocrlf True by auto
      moreover have "splitlines (c # d # cs) = [] # splitlines (d # cs)"
        using nocrlf True by auto
      ultimately show ?thesis using IH by simp
    next
      case False
      obtain l ls where l: "splitlines (d # cs) = l # ls"
        using splitlines_not_Nil [of "d # cs"] by (cases "splitlines (d # cs)") simp_all
      have "splitlines (c # d # (cs @ x)) =
              (case splitlines (d # (cs @ x)) of [] \<Rightarrow> [[c]] | l # ls \<Rightarrow> (c # l) # ls)"
        using nocrlf False by auto
      moreover have "splitlines (c # d # cs) = (c # l) # ls"
        using nocrlf False l by auto
      ultimately show ?thesis using IH l by simp
    qed
  qed
qed

lemma splitlines_no_linebreak_all: "\<forall>l \<in> set (splitlines s). \<forall>c \<in> set l. \<not> is_linebreak c"
proof (induction s rule: splitlines.induct)
  case 1
  show ?case by simp
next
  case (2 c)
  show ?case by simp
next
  case (3 c d cs)
  show ?case
  proof (cases "c = 13 \<and> d = 10")
    case True
    with 3(1) show ?thesis by simp
  next
    case False
    note nocrlf = this
    show ?thesis
    proof (cases "is_linebreak c")
      case True
      have "splitlines (c # d # cs) = [] # splitlines (d # cs)"
        using nocrlf True by auto
      with 3(2) nocrlf True show ?thesis by simp
    next
      case False
      obtain l ls where l: "splitlines (d # cs) = l # ls"
        using splitlines_not_Nil [of "d # cs"] by (cases "splitlines (d # cs)") simp_all
      have "splitlines (c # d # cs) = (c # l) # ls"
        using nocrlf False l by auto
      with 3(3) nocrlf False l show ?thesis by simp
    qed
  qed
qed

lemma key_lines_join_nl: "ls \<noteq> [] \<Longrightarrow> key_lines ls = join_nl ls @ [10]"
  by (induction ls rule: join_nl.induct) (simp_all add: key_lines_def)

lemma last_join_nl: "ls \<noteq> [] \<Longrightarrow> last ls \<noteq> [] \<Longrightarrow> join_nl ls \<noteq> [] \<and> last (join_nl ls) = last (last ls)"
  by (induction ls rule: join_nl.induct) simp_all

lemma rstrip_id: "s \<noteq> [] \<Longrightarrow> \<not> is_space (last s) \<Longrightarrow> rstrip s = s"
proof -
  assume "s \<noteq> []" "\<not> is_space (last s)"
  then have "dropWhile is_space (rev s) = rev s"
    by (cases "rev s") (simp_all add: last_rev [symmetric] hd_rev)
  then show ?thesis by (simp add: rstrip_def)
qed

lemma splitlines_rewritten:
  assumes "\<forall>l \<in> set ls. \<forall>c \<in> set l. \<not> is_linebreak c"
    and "ls = [] \<or> (last ls \<noteq> [] \<and> \<not> is_space (last (last ls)))"
  shows "splitlines (rewritten ls) = ls"
proof (cases "ls = []")
  case True
  then show ?thesis by (simp add: rewritten_def rstrip_def)
next
  case False
  with assms(2) last_join_nl [of ls] have "rstrip (join_nl ls) = join_nl ls"
    by (simp add: rstrip_id)
  with False have "rewritten ls = key_lines ls"
    by (simp add: rewritten_def key_lines_join_nl)
  with assms(1) show ?thesis by (simp add: splitlines_key_lines)
qed

lemma scan_lines_removed: "scan_lines kv ls True acc = (True, acc @ ls)"
  by (induction ls arbitrary: acc) simp_all

lemma scan_lines_none:
  "\<forall>l \<in> set ls. strip l \<noteq> kv \<Longrightarrow> scan_lines kv ls False acc = (False, acc @ ls)"
  by (induction ls arbitrary: acc) simp_all

lemma scan_lines_first:
  "\<forall>x \<in> set pre. strip x \<noteq> kv \<Longrightarrow> strip l = kv \<Longrightarrow>
   scan_lines kv (pre @ l # post) False acc = (True, acc @ pre @ post)"
  by (induction pre arbitrary: acc) (simp_all add: scan_lines_removed)

section \<open>Claims about key values and the mirror\<close>

text \<open>
  C10.  In every reachable state each stored key value is clean: not empty,
  without newline, comma, semicolon, tab or space (and without any other line
  boundary), and without white space at either end.  The same holds of every
  token an import accepts and of every value \<open>pop_key\<close> returns.  The lines an
  import appends to a mirror file read back as exactly the inserted values,
  one per line, also behind an old text that is empty or ends with a newline.
\<close>

theorem accepted_keys_are_clean:
  assumes "reachable owner_ids (d, f)"
  shows "(\<forall>r \<in> set (keys d). clean_key (key r) \<and>
            (\<forall>c \<in> set (key r). c \<noteq> 10 \<and> c \<noteq> 44 \<and> c \<noteq> 59 \<and> c \<noteq> 9 \<and> c \<noteq> 32)) \<and>
         (\<forall>k \<in> set (parse_keys raw_text). clean_key k) \<and>
         (\<forall>v. fst (pop_key prog dur reseller_id buyer_id now (d, f)) = Some v \<longrightarrow> clean_key v) \<and>
         splitlines (key_lines (new_keys raw_text d)) = new_keys raw_text d \<and>
         (\<forall>old. old = [] \<or> last old = 10 \<longrightarrow>
            splitlines (old @ key_lines (new_keys raw_text d)) =
              splitlines old @ new_keys raw_text d)"
proof -
  from reachable_db_inv [OF assms] have inv: "db_inv d" by simp
  then have stored: "\<forall>r \<in> set (keys d). clean_key (key r)"
    by (simp add: db_inv_def)
  have chars: "\<forall>c \<in> set k. c \<noteq> 10 \<and> c \<noteq> 44 \<and> c \<noteq> 59 \<and> c \<noteq> 9 \<and> c \<noteq> 32" if "clean_key k" for k
    using that by (auto simp: clean_key_def separator_def is_linebreak_def)
  have popped: "clean_key v" if "fst (pop_key prog dur reseller_id buyer_id now (d, f)) = Some v" for v
  proof -
    from that have "fst (claim_one prog dur reseller_id buyer_id now d) = Some v"
      by (simp add: pop_key_result)
    from claim_one_returns_unused [OF this] stored show ?thesis by blast
  qed
  have lines: "splitlines (key_lines (new_keys raw_text d)) = new_keys raw_text d"
    by (rule splitlines_key_lines) (use new_keys_fresh clean_key_no_linebreak in blast)
  have behind: "splitlines (old @ key_lines (new_keys raw_text d)) =
                  splitlines old @ new_keys raw_text d" if "old = [] \<or> last old = 10" for old
    using splitlines_append_nl [OF that] lines by simp
  from stored chars popped lines behind show ?thesis
    using clean_parse_keys by blast
qed

theorem accepted_keys_are_clean_witness:
  "reachable {1} (stocked_db, stocked_fs) \<and> clean_key (key row1) \<and>
   splitlines (key_lines (new_keys (py ''K3 K4'') stocked_db)) = new_keys (py ''K3 K4'') stocked_db"
proof -
  have r: "reachable {1} (stocked_db, stocked_fs)" by (rule reachable_stocked)
  have m: "row1 \<in> set (keys stocked_db)" by simp
  from accepted_keys_are_clean [OF r, of "py ''K3 K4''"] r m show ?thesis by blast
qed

text \<open>
  C9, as the code has it.  When the mirror file is absent nothing is removed
  and nothing is written.  For a regular mirror file read as lines: when no
  line trims to the target value the removal reports \<open>False\<close> and leaves every
  file as it was; otherwise it drops the first such line only, keeps all other
  lines (later lines of the same value too) in their order, and writes them
  joined by newlines, stripped of white space at the very end of the text, with
  a final newline unless no line is left.  The lines read back unchanged when
  none is left or the last one does not end in white space; trailing blank
  lines and trailing white space of the last line are otherwise lost.
\<close>

theorem remove_key_from_txt_first_match:
  "(f (stock_file prog dur) = None \<longrightarrow>
      remove_key_from_txt prog dur key_value f = Inr (False, f)) \<and>
   (\<forall>text. f (stock_file prog dur) = Some (Regular text) \<longrightarrow>
      ((\<forall>l \<in> set (splitlines text). strip l \<noteq> key_value) \<longrightarrow>
         remove_key_from_txt prog dur key_value f = Inr (False, f)) \<and>
      (\<forall>pre l post.
         splitlines text = pre @ l # post \<and> strip l = key_value \<and>
         (\<forall>x \<in> set pre. strip x \<noteq> key_value) \<longrightarrow>
           remove_key_from_txt prog dur key_value f =
             Inr (True, f(stock_file prog dur \<mapsto> Regular (rewritten (pre @ post)))) \<and>
           rewritten (pre @ post) =
             rstrip (join_nl (pre @ post)) @ (if pre @ post \<noteq> [] then [10] else []) \<and>
           (\<exists>ws. join_nl (pre @ post) = rstrip (join_nl (pre @ post)) @ ws \<and>
                 (\<forall>c \<in> set ws. is_space c)) \<and>
           (pre @ post = [] \<or>
              (last (pre @ post) \<noteq> [] \<and> \<not> is_space (last (last (pre @ post)))) \<longrightarrow>
              splitlines (rewritten (pre @ post)) = pre @ post)))"
proof (intro conjI allI impI)
  assume "f (stock_file prog dur) = None"
  then show "remove_key_from_txt prog dur key_value f = Inr (False, f)"
    by (simp add: remove_key_from_txt_def)
next
  fix body
  assume mirror: "f (stock_file prog dur) = Some (Regular body)"
    and none: "\<forall>l \<in> set (splitlines body). strip l \<noteq> key_value"
  show "remove_key_from_txt prog dur key_value f = Inr (False, f)"
    by (simp add: remove_key_from_txt_def mirror scan_lines_none [OF none])
next
  fix body pre l post
  assume mirror: "f (stock_file prog dur) = Some (Regular body)"
    and found: "splitlines body = pre @ l # post \<and> strip l = key_value \<and>
                (\<forall>x \<in> set pre. strip x \<noteq> key_value)"
  then have scan: "scan_lines key_value (splitlines body) False [] = (True, pre @ post)"
    using scan_lines_first [of pre key_value l post "[]"] by simp
  show "remove_key_from_txt prog dur key_value f =
          Inr (True, f(stock_file prog dur \<mapsto> Regular (rewritten (pre @ post))))"
    by (simp add: remove_key_from_txt_def mirror scan open_write_def)
  show "rewritten (pre @ post) =
          rstrip (join_nl (pre @ post)) @ (if pre @ post \<noteq> [] then [10] else [])"
    by (simp add: rewritten_def)
  show "\<exists>ws. join_nl (pre @ post) = rstrip (join_nl (pre @ post)) @ ws \<and>
             (\<forall>c \<in> set ws. is_space c)"
  proof (intro exI conjI)
    show "join_nl (pre @ post) = rstrip (join_nl (pre @ post)) @
            rev (takeWhile is_space (rev (join_nl (pre @ post))))"
      by (rule rstrip_prefix)
    show "\<forall>c \<in> set (rev (takeWhile is_space (rev (join_nl (pre @ post))))). is_space c"
      by (auto dest: set_takeWhileD)
  qed
  assume ends: "pre @ post = [] \<or>
                (last (pre @ post) \<noteq> [] \<and> \<not> is_space (last (last (pre @ post))))"
  have "\<forall>x \<in> set (pre @ post). \<forall>c \<in> set x. \<not> is_linebreak c"
    using splitlines_no_linebreak_all [of body] found by auto
  then show "splitlines (rewritten (pre @ post)) = pre @ post"
    using ends by (rule splitlines_rewritten)
qed

theorem remove_key_from_txt_first_match_witness:
  "stocked_fs (stock_file ''temp'' ''day'') =
     Some (Regular (py ''K1'' @ [10] @ py ''K2'' @ [10])) \<and>
   splitlines (py ''K1'' @ [10] @ py ''K2'' @ [10]) = [] @ py ''K1'' # [py ''K2''] \<and>
   strip (py ''K1'') = py ''K1'' \<and>
   remove_key_from_txt ''temp'' ''day'' (py ''K1'') stocked_fs =
     Inr (True, stocked_fs(stock_file ''temp'' ''day'' \<mapsto> Regular (rewritten ([] @ [py ''K2'']))))"
proof -
  have mirror: "stocked_fs (stock_file ''temp'' ''day'') =
     Some (Regular (py ''K1'' @ [10] @ py ''K2'' @ [10]))"
    by (simp add: stock_file_def)
  have lines: "splitlines (py ''K1'' @ [10] @ py ''K2'' @ [10]) = [] @ py ''K1'' # [py ''K2'']"
    by (simp add: string_defs)
  have s: "strip (py ''K1'') = py ''K1''"
    by (simp add: string_defs)
  have pre: "\<forall>x \<in> set []. strip x \<noteq> py ''K1''" by simp
  from remove_key_from_txt_first_match
         [of stocked_fs "''temp''" "''day''" "py ''K1''"] mirror lines s pre
  show ?thesis by blast
qed

theorem remove_key_from_txt_rewrite_counterexample:
  "splitlines (py ''K1'' @ [10] @ py ''K2 '' @ [10]) = [py ''K1'', py ''K2 ''] \<and>
   remove_key_from_txt ''temp'' ''day'' (py ''K1'')
       [''temp_day.txt'' \<mapsto> Regular (py ''K1'' @ [10] @ py ''K2 '' @ [10])] =
     Inr (True, [''temp_day.txt'' \<mapsto> Regular (py ''K2'' @ [10])]) \<and>
   splitlines (py ''K2'' @ [10]) = [py ''K2''] \<and>
   [py ''K2''] \<noteq> [py ''K2 '']"
  by (simp add: remove_key_from_txt_def stock_file_def open_write_def rewritten_def string_defs)

end
